theory Spec2Isabelle
  imports Main "HOL-Library.Word"
begin

section \<open>The baton of \<^verbatim>\<open>ext/relay.c\<close>\<close>

text \<open>
  \<^verbatim>\<open>relay.c\<close> keeps two process-wide mutexes, \<^verbatim>\<open>relay__rubyLock\<close> (the gate the
  script thread waits at) and \<^verbatim>\<open>relay__verilogLock\<close> (the gate the simulation thread
  waits at). A gate is released by the thread that does not hold it, so the mutexes are
  used as binary semaphores: \<^verbatim>\<open>pthread_mutex_unlock\<close> makes the gate free whoever
  locked it, and \<^verbatim>\<open>pthread_mutex_lock\<close> blocks the caller while the gate is held.
  A gate is modelled by one flag, \<open>True\<close> when it is held.
\<close>

datatype gate = RubyLock | VerilogLock

record baton =
  rubyLock :: bool
  verilogLock :: bool

datatype mutex_op = Unlock gate | Lock gate

fun held :: "gate \<Rightarrow> baton \<Rightarrow> bool" where
  "held RubyLock b = rubyLock b"
| "held VerilogLock b = verilogLock b"

fun set_gate :: "gate \<Rightarrow> bool \<Rightarrow> baton \<Rightarrow> baton" where
  "set_gate RubyLock v b = b\<lparr>rubyLock := v\<rparr>"
| "set_gate VerilogLock v b = b\<lparr>verilogLock := v\<rparr>"

text \<open>
  One mutex operation on the gates. \<open>None\<close> is the caller blocked inside
  \<^verbatim>\<open>pthread_mutex_lock\<close>: the operation has not happened and the gates are as before.
\<close>

fun exec_op :: "mutex_op \<Rightarrow> baton \<Rightarrow> baton option" where
  "exec_op (Unlock g) b = Some (set_gate g False b)"
| "exec_op (Lock g) b = (if held g b then None else Some (set_gate g True b))"

text \<open>
  \<^verbatim>\<open>relay_init\<close>: both mutexes are initialised and locked at once.
\<close>

definition relay_init :: baton where
  "relay_init = \<lparr>rubyLock = True, verilogLock = True\<rparr>"

text \<open>
  The two handoffs, statement by statement:
  \<^verbatim>\<open>relay_ruby    { pthread_mutex_unlock(&relay__rubyLock);    pthread_mutex_lock(&relay__verilogLock); }\<close>
  \<^verbatim>\<open>relay_verilog { pthread_mutex_unlock(&relay__verilogLock); pthread_mutex_lock(&relay__rubyLock); }\<close>
\<close>

definition relay_ruby :: "mutex_op list" where
  "relay_ruby = [Unlock RubyLock, Lock VerilogLock]"

definition relay_verilog :: "mutex_op list" where
  "relay_verilog = [Unlock VerilogLock, Lock RubyLock]"

subsection \<open>Two threads around the baton\<close>

text \<open>
  The simulation thread calls only \<^verbatim>\<open>relay_ruby\<close>, the script thread only
  \<^verbatim>\<open>relay_verilog\<close>. A thread is described by the statements of the handoff it is
  inside that it still has to execute: the empty list is a thread outside every handoff,
  in its active region.
\<close>

datatype party = Simulation | Script

fun handoff :: "party \<Rightarrow> mutex_op list" where
  "handoff Simulation = relay_ruby"
| "handoff Script = relay_verilog"

fun own_gate :: "party \<Rightarrow> gate" where
  "own_gate Simulation = VerilogLock"
| "own_gate Script = RubyLock"

record bridge =
  gates :: baton
  pending :: "party \<Rightarrow> mutex_op list"

definition active :: "party \<Rightarrow> bridge \<Rightarrow> bool" where
  "active t s = (pending s t = [])"

datatype event = Call party | Exec party

text \<open>
  \<open>Call t\<close>: thread \<open>t\<close>, outside a handoff, enters its handoff. \<open>Exec t\<close>: thread
  \<open>t\<close> executes the next statement of the handoff it is inside. An event that cannot
  happen (a call from inside a call, a statement of a thread that is outside, a lock on a
  held gate) gives \<open>None\<close>.
\<close>

fun step :: "event \<Rightarrow> bridge \<Rightarrow> bridge option" where
  "step (Call t) s =
     (if pending s t = [] then Some (s\<lparr>pending := (pending s)(t := handoff t)\<rparr>) else None)"
| "step (Exec t) s =
     (case pending s t of
        [] \<Rightarrow> None
      | c # cs \<Rightarrow>
          (case exec_op c (gates s) of
             None \<Rightarrow> None
           | Some b \<Rightarrow> Some (s\<lparr>gates := b, pending := (pending s)(t := cs)\<rparr>)))"

fun run :: "event list \<Rightarrow> bridge \<Rightarrow> bridge option" where
  "run [] s = Some s"
| "run (e # es) s = (case step e s of None \<Rightarrow> None | Some s' \<Rightarrow> run es s')"

text \<open>
  The states of the alternation: at most one thread is outside its handoff, a thread
  inside has either released the other gate or is about to, and a gate is free only
  while its thread is on its way through it.
\<close>

definition parked :: "party \<Rightarrow> bridge \<Rightarrow> bool" where
  "parked t s = (pending s t = [Lock (own_gate t)])"

definition alternating :: "bridge \<Rightarrow> bool" where
  "alternating s =
     (let r = rubyLock (gates s); v = verilogLock (gates s);
          sim = pending s Simulation; scr = pending s Script
      in (sim = [] \<and> scr = [Lock RubyLock] \<and> r \<and> v)
       \<or> (sim = relay_ruby \<and> scr = [Lock RubyLock] \<and> r \<and> v)
       \<or> (sim = [Lock VerilogLock] \<and> scr = [Lock RubyLock] \<and> \<not> r \<and> v)
       \<or> (sim = [Lock VerilogLock] \<and> scr = [] \<and> r \<and> v)
       \<or> (sim = [Lock VerilogLock] \<and> scr = relay_verilog \<and> r \<and> v)
       \<or> (sim = [Lock VerilogLock] \<and> scr = [Lock RubyLock] \<and> r \<and> \<not> v)
       \<or> (sim = [Lock VerilogLock] \<and> scr = [Lock RubyLock] \<and> r \<and> v))"

text \<open>Exchanging the roles of the two sides.\<close>

fun dual_gate :: "gate \<Rightarrow> gate" where
  "dual_gate RubyLock = VerilogLock"
| "dual_gate VerilogLock = RubyLock"

fun dual_op :: "mutex_op \<Rightarrow> mutex_op" where
  "dual_op (Unlock g) = Unlock (dual_gate g)"
| "dual_op (Lock g) = Lock (dual_gate g)"

definition dual_baton :: "baton \<Rightarrow> baton" where
  "dual_baton b = \<lparr>rubyLock = verilogLock b, verilogLock = rubyLock b\<rparr>"

section \<open>The heap of the argument buffer\<close>

text \<open>
  \<^verbatim>\<open>relay_ruby_run\<close> builds the argument buffer with \<^verbatim>\<open>malloc\<close>, \<^verbatim>\<open>realloc\<close> and
  \<^verbatim>\<open>strdup\<close>; \<^verbatim>\<open>ruby_run_handshake\<close> gives it back with \<^verbatim>\<open>free\<close>. The heap is an
  explicit store from addresses to blocks. A block is the options structure
  (\<^verbatim>\<open>relay__RubyOptions__def\<close>: \<^verbatim>\<open>mArgs\<close>, \<^verbatim>\<open>mCount\<close>), an array of
  \<^verbatim>\<open>PLI_BYTE8*\<close>, or the characters of one string. A pointer is \<open>addr option\<close>,
  \<open>None\<close> for \<^verbatim>\<open>NULL\<close>; \<^verbatim>\<open>mCount\<close> is an \<^verbatim>\<open>unsigned int\<close>, a 32-bit word.
  A string is the bytes of a C string before its terminator.
\<close>

type_synonym addr = nat

datatype slot = Indeterminate | Ptr "addr option"

datatype block =
    Options "addr option" "32 word"
  | Argv "slot list"
  | Chars string

text \<open>
  \<open>fresh\<close> is the next address the allocator hands out, \<open>grants\<close> says for each
  coming request whether it is granted (past the end of the list every request is),
  and \<open>released\<close> logs the blocks passed to \<^verbatim>\<open>free\<close>, in order.
\<close>

record heap =
  blocks :: "addr \<Rightarrow> block option"
  fresh :: addr
  grants :: "bool list"
  released :: "addr list"

definition granted :: "heap \<Rightarrow> bool" where
  "granted h = (case grants h of [] \<Rightarrow> True | g # _ \<Rightarrow> g)"

text \<open>
  \<^verbatim>\<open>malloc\<close> and \<^verbatim>\<open>strdup\<close>: a new block at a new address, or \<^verbatim>\<open>NULL\<close> and the
  heap as it was.
\<close>

definition alloc :: "block \<Rightarrow> heap \<Rightarrow> addr option \<times> heap" where
  "alloc b h =
     (if granted h
      then (Some (fresh h),
            h\<lparr>blocks := (blocks h)(fresh h \<mapsto> b), fresh := Suc (fresh h),
              grants := tl (grants h)\<rparr>)
      else (None, h\<lparr>grants := tl (grants h)\<rparr>))"

text \<open>
  \<^verbatim>\<open>realloc(q, sizeof(PLI_BYTE8*) * n)\<close> on an array: when granted, the array moves to
  a new address, keeps its first \<open>n\<close> elements and gets indeterminate ones beyond them,
  and the old address is dead; when refused, \<^verbatim>\<open>NULL\<close> comes back and the old array
  stays. The outer \<open>None\<close> is a call on something that is no live array.
\<close>

definition realloc :: "addr \<Rightarrow> nat \<Rightarrow> heap \<Rightarrow> (addr option \<times> heap) option" where
  "realloc q n h =
     (case blocks h q of
        Some (Argv slots) \<Rightarrow>
          Some (if granted h
                then (Some (fresh h),
                      h\<lparr>blocks := ((blocks h)(q := None))
                            (fresh h \<mapsto> Argv (take n slots @ replicate (n - length slots) Indeterminate)),
                        fresh := Suc (fresh h), grants := tl (grants h)\<rparr>)
                else (None, h\<lparr>grants := tl (grants h)\<rparr>))
      | _ \<Rightarrow> None)"

text \<open>
  \<^verbatim>\<open>free\<close>: nothing for \<^verbatim>\<open>NULL\<close>; a live block dies and is logged; anything else
  (a block already released, an address never handed out) is \<open>None\<close>.
\<close>

definition free :: "addr option \<Rightarrow> heap \<Rightarrow> heap option" where
  "free p h =
     (case p of
        None \<Rightarrow> Some h
      | Some a \<Rightarrow>
          (case blocks h a of
             None \<Rightarrow> None
           | Some _ \<Rightarrow> Some (h\<lparr>blocks := (blocks h)(a := None), released := released h @ [a]\<rparr>)))"

section \<open>Capturing the arguments: \<^verbatim>\<open>relay_ruby_run\<close>\<close>

text \<open>
  What the simulator answers at the call site: \<^verbatim>\<open>vpi_handle(vpiSysTfCall, NULL)\<close>
  gives no handle (\<open>NoCall\<close>); or a handle for which \<^verbatim>\<open>vpi_iterate(vpiArgument, _)\<close>
  gives no iterator (\<open>NoArguments\<close>); or an iterator from which \<^verbatim>\<open>vpi_scan\<close> hands
  out the arguments one by one and then \<^verbatim>\<open>NULL\<close>, \<^verbatim>\<open>vpi_get_value\<close> reading each as
  a string (\<open>Arguments\<close>).
\<close>

datatype sysTfCall = NoCall | NoArguments | Arguments "string list"

fun arguments :: "sysTfCall \<Rightarrow> string list" where
  "arguments NoCall = []"
| "arguments NoArguments = []"
| "arguments (Arguments xs) = xs"

datatype fault = AssertionFailed | MemoryFault

text \<open>
  One round of the \<^verbatim>\<open>while\<close> loop, for the argument whose string value is \<open>s\<close>:
  \<^verbatim>\<open>mCount++\<close>; \<^verbatim>\<open>mArgs\<close> is allocated (when \<^verbatim>\<open>NULL\<close>) or reallocated to
  \<^verbatim>\<open>mCount\<close> pointers and stored back; \<^verbatim>\<open>assert(mArgs != NULL)\<close>; then
  \<^verbatim>\<open>mArgs[mCount - 1] = strdup(s)\<close>, the result of \<^verbatim>\<open>strdup\<close> stored unchecked.
\<close>

definition capture_arg :: "string \<Rightarrow> addr \<Rightarrow> heap \<Rightarrow> fault + heap" where
  "capture_arg s p h =
     (case blocks h p of
        Some (Options mArgs mCount) \<Rightarrow>
          (let n = mCount + 1 in
           case (case mArgs of
                   None \<Rightarrow> Some (alloc (Argv (replicate (unat n) Indeterminate)) h)
                 | Some q \<Rightarrow> realloc q (unat n) h) of
             None \<Rightarrow> Inl MemoryFault
           | Some (mArgs', h1) \<Rightarrow>
               (let h2 = h1\<lparr>blocks := (blocks h1)(p \<mapsto> Options mArgs' n)\<rparr> in
                case mArgs' of
                  None \<Rightarrow> Inl AssertionFailed
                | Some q \<Rightarrow>
                    (case alloc (Chars s) h2 of
                       (c, h3) \<Rightarrow>
                         (case blocks h3 q of
                            Some (Argv slots) \<Rightarrow>
                              if unat (n - 1) < length slots
                              then Inr (h3\<lparr>blocks :=
                                          (blocks h3)(q \<mapsto> Argv (slots[unat (n - 1) := Ptr c]))\<rparr>)
                              else Inl MemoryFault
                          | _ \<Rightarrow> Inl MemoryFault))))
      | _ \<Rightarrow> Inl MemoryFault)"

fun scan_args :: "string list \<Rightarrow> addr \<Rightarrow> heap \<Rightarrow> fault + heap" where
  "scan_args [] p h = Inr h"
| "scan_args (s # rest) p h =
     (case capture_arg s p h of Inl e \<Rightarrow> Inl e | Inr h' \<Rightarrow> scan_args rest p h')"

datatype exit_status = EXIT_FAILURE

text \<open>
  How \<^verbatim>\<open>relay_ruby_run\<close> ends: the script thread is created on the options structure
  (\<^verbatim>\<open>pthread_create(&relay__rubyThread, 0, ruby_run_handshake, pRubyOptions)\<close>); or the
  message is printed and the process exits; or the assertion fails, which prints the
  failed assertion and aborts; or a store goes outside its array. The structure comes
  from \<^verbatim>\<open>malloc\<close> with the two stores that follow it, \<^verbatim>\<open>mArgs = NULL\<close> and
  \<^verbatim>\<open>mCount = 0\<close>, already made. The result of
  \<^verbatim>\<open>pthread_create\<close> is not looked at by the code, and the thread is taken to be
  created; \<^verbatim>\<open>assert\<close> is taken as compiled in.
\<close>

datatype launch =
    Spawned addr heap
  | Exited string exit_status
  | Aborted
  | Crashed

definition relay_ruby_run :: "sysTfCall \<Rightarrow> heap \<Rightarrow> launch" where
  "relay_ruby_run vCall h0 =
     (case alloc (Options None 0) h0 of
        (None, h) \<Rightarrow>
          Exited ''error: unable to allocate memory for Ruby's command-line arguments.''
            EXIT_FAILURE
      | (Some pRubyOptions, h) \<Rightarrow>
          (case vCall of
             NoCall \<Rightarrow> Spawned pRubyOptions h
           | NoArguments \<Rightarrow> Spawned pRubyOptions h
           | Arguments xs \<Rightarrow>
               (case scan_args xs pRubyOptions h of
                  Inl AssertionFailed \<Rightarrow> Aborted
                | Inl MemoryFault \<Rightarrow> Crashed
                | Inr h' \<Rightarrow> Spawned pRubyOptions h')))"

section \<open>The script thread: \<^verbatim>\<open>ruby_run_handshake\<close>\<close>

text \<open>
  The calls a bootstrap makes to its collaborators (the interpreter, the generated
  interface, the C library), in the order it makes them. \<open>RubyOptions\<close> carries the
  count as the callee gets it and what the elements of \<^verbatim>\<open>argv\<close> point to when the
  call is made, \<open>None\<close> for an element that is \<^verbatim>\<open>NULL\<close>. The callee is
  \<^verbatim>\<open>ruby_options(int argc, char** argv)\<close>, so its count is an \<^verbatim>\<open>int\<close>.
  \<open>DefineModuleFunction\<close> carries the name, the C function and the arity of
  \<^verbatim>\<open>rb_define_module_function(mVpi, ...)\<close>.
\<close>

datatype callable = Main_relay_verilog | Main_relay_ruby_reason

datatype action =
    RubyInit
  | RubyInitLoadpath
  | SwigInit
  | InitVpi
  | DefineModuleFunction string callable nat
  | Getenv string
  | RubyScript string
  | RbLoadFile string
  | RubyOptions int "string option list"
  | Free "addr option"
  | RubyRun
  | RubyFinalize
  | CommonPrintf string
  | Exit exit_status

text \<open>
  Reading the strings behind \<^verbatim>\<open>argv\<close>: \<open>None\<close> when an element is indeterminate
  or does not point to a live string, or when \<^verbatim>\<open>argv\<close> has fewer than \<^verbatim>\<open>argc\<close>
  elements.
\<close>

fun read_string :: "heap \<Rightarrow> slot \<Rightarrow> string option option" where
  "read_string h Indeterminate = None"
| "read_string h (Ptr None) = Some None"
| "read_string h (Ptr (Some a)) = (case blocks h a of Some (Chars s) \<Rightarrow> Some (Some s) | _ \<Rightarrow> None)"

fun read_strings :: "heap \<Rightarrow> slot list \<Rightarrow> string option list option" where
  "read_strings h [] = Some []"
| "read_strings h (x # xs) =
     (case read_string h x of
        None \<Rightarrow> None
      | Some s \<Rightarrow> (case read_strings h xs of None \<Rightarrow> None | Some ss \<Rightarrow> Some (s # ss)))"

definition argv_strings :: "addr option \<Rightarrow> nat \<Rightarrow> heap \<Rightarrow> string option list option" where
  "argv_strings argv n h =
     (case argv of
        None \<Rightarrow> if n = 0 then Some [] else None
      | Some q \<Rightarrow>
          (case blocks h q of
             Some (Argv slots) \<Rightarrow> if n \<le> length slots then read_strings h (take n slots) else None
           | _ \<Rightarrow> None))"

text \<open>
  The loop \<^verbatim>\<open>for (i = 0; i < argc; i++) free(argv[i]);\<close> from index \<open>i\<close> on, with the
  calls to \<^verbatim>\<open>free\<close> it makes.
\<close>

function free_args :: "32 word \<Rightarrow> 32 word \<Rightarrow> addr option \<Rightarrow> heap \<Rightarrow> (action list \<times> heap) option" where
  "free_args i argc argv h =
     (if i < argc
      then (case argv of
              None \<Rightarrow> None
            | Some q \<Rightarrow>
                (case blocks h q of
                   Some (Argv slots) \<Rightarrow>
                     if unat i < length slots
                     then (case slots ! unat i of
                             Indeterminate \<Rightarrow> None
                           | Ptr c \<Rightarrow>
                               (case free c h of
                                  None \<Rightarrow> None
                                | Some h' \<Rightarrow>
                                    (case free_args (i + 1) argc argv h' of
                                       None \<Rightarrow> None
                                     | Some (fs, h'') \<Rightarrow> Some (Free c # fs, h''))))
                     else None
                 | _ \<Rightarrow> None))
      else Some ([], h))"
  by pat_completeness auto
termination
proof (relation "measure (\<lambda>(i, argc, argv, h). unat argc - unat i)")
  show "wf (measure (\<lambda>(i, argc, argv, h). unat argc - unat i))" by simp
next
  fix i argc :: "32 word" and argv :: "addr option" and h h' :: heap
  assume "i < argc"
  then have below: "unat i < unat argc" by (simp add: word_less_nat_alt)
  moreover have "unat argc < 2 ^ LENGTH(32)" by (rule unsigned_less)
  ultimately have "unat i + unat (1 :: 32 word) < 2 ^ LENGTH(32)" by simp
  then have "unat (i + 1) = unat i + unat (1 :: 32 word)" by (simp only: unat_add_lem)
  with below
  show "((i + 1, argc, argv, h'), (i, argc, argv, h)) \<in> measure (\<lambda>(i, argc, argv, h). unat argc - unat i)"
    by simp
qed

declare free_args.simps [simp del]

text \<open>
  \<^verbatim>\<open>ruby_run_handshake(apRubyOptions)\<close>: the interpreter and the interface are
  initialised, \<^verbatim>\<open>argc\<close> and \<^verbatim>\<open>argv\<close> are read from the structure and given to
  \<^verbatim>\<open>ruby_options\<close>, every string, the array and the structure are freed, and the
  interpreter runs and is finalised. The local \<^verbatim>\<open>argc\<close> is an \<^verbatim>\<open>unsigned int\<close>; the
  call converts it to the \<^verbatim>\<open>int\<close> of the callee, the same 32 bits read as a signed
  number (\<open>sint\<close>), negative from \<open>2^31\<close> on. The loop that frees the strings counts
  with the unsigned value. The result is the calls made and the heap left, or \<open>None\<close>
  when a read or a \<^verbatim>\<open>free\<close> goes wrong.
\<close>

definition ruby_run_handshake :: "addr \<Rightarrow> heap \<Rightarrow> (action list \<times> heap) option" where
  "ruby_run_handshake apRubyOptions h =
     (case blocks h apRubyOptions of
        Some (Options argv argc) \<Rightarrow>
          (case argv_strings argv (unat argc) h of
             None \<Rightarrow> None
           | Some strs \<Rightarrow>
               (case free_args 0 argc argv h of
                  None \<Rightarrow> None
                | Some (fs, h1) \<Rightarrow>
                    (case free argv h1 of
                       None \<Rightarrow> None
                     | Some h2 \<Rightarrow>
                         (case free (Some apRubyOptions) h2 of
                            None \<Rightarrow> None
                          | Some h3 \<Rightarrow>
                              Some ([RubyInit, RubyInitLoadpath, SwigInit, RubyOptions (sint argc) strs]
                                    @ fs
                                    @ [Free argv, Free (Some apRubyOptions), RubyRun, RubyFinalize],
                                    h3)))))
      | _ \<Rightarrow> None)"

text \<open>
  A launch cycle: \<^verbatim>\<open>relay_ruby_run\<close> on the simulation thread, then the thread it
  created, to its end.
\<close>

definition launch_cycle :: "sysTfCall \<Rightarrow> heap \<Rightarrow> (action list \<times> heap) option" where
  "launch_cycle vCall h0 =
     (case relay_ruby_run vCall h0 of
        Spawned pRubyOptions h \<Rightarrow> ruby_run_handshake pRubyOptions h
      | _ \<Rightarrow> None)"


section \<open>The bootstrap of \<^verbatim>\<open>ext/main.c\<close>\<close>

text \<open>
  \<^verbatim>\<open>main_init\<close>, given what \<^verbatim>\<open>getenv\<close> answers: \<open>None\<close> for a variable that is
  not set. After \<^verbatim>\<open>exit\<close> nothing more is called.
\<close>

definition main_init :: "(string \<Rightarrow> string option) \<Rightarrow> action list" where
  "main_init getenv =
     [RubyInit, RubyInitLoadpath, InitVpi,
      DefineModuleFunction ''relay_verilog'' Main_relay_verilog 0,
      DefineModuleFunction ''relay_ruby_reason'' Main_relay_ruby_reason 0,
      Getenv ''RUBYVPI_BOOTSTRAP'']
     @ (case getenv ''RUBYVPI_BOOTSTRAP'' of
          Some benchFile \<Rightarrow> [RubyScript benchFile, RbLoadFile benchFile, RubyRun, RubyFinalize]
        | None \<Rightarrow>
            [CommonPrintf
               ''error: environment variable RUBY_VPI__RUBY_BENCH_FILE is uninitialized.'',
             Exit EXIT_FAILURE])"

text \<open>
  \<^verbatim>\<open>main_relay_verilog(arSelf) { relay_verilog(); return arSelf; }\<close>: the baton
  operations it calls, and the value it returns.
\<close>

datatype baton_call = Relay_ruby | Relay_verilog

fun body :: "baton_call \<Rightarrow> mutex_op list" where
  "body Relay_ruby = relay_ruby"
| "body Relay_verilog = relay_verilog"

definition main_relay_verilog :: "'v \<Rightarrow> baton_call list \<times> 'v" where
  "main_relay_verilog arSelf = ([Relay_verilog], arSelf)"

subsection \<open>Order of the calls\<close>

text \<open>
  \<open>enters_script\<close>: the calls that hand the interpreter something to load or run.
  \<open>preceded_by P Q tr\<close>: no \<open>Q\<close> call of \<open>tr\<close> comes before the first \<open>P\<close> call.
\<close>

fun enters_script :: "action \<Rightarrow> bool" where
  "enters_script (RubyOptions argc strs) = True"
| "enters_script (RbLoadFile f) = True"
| "enters_script RubyRun = True"
| "enters_script _ = False"

fun preceded_by :: "(action \<Rightarrow> bool) \<Rightarrow> (action \<Rightarrow> bool) \<Rightarrow> action list \<Rightarrow> bool" where
  "preceded_by P Q [] = True"
| "preceded_by P Q (a # tr) = (if P a then True else if Q a then False else preceded_by P Q tr)"

fun getenv_names :: "action list \<Rightarrow> string list" where
  "getenv_names [] = []"
| "getenv_names (Getenv v # tr) = v # getenv_names tr"
| "getenv_names (a # tr) = getenv_names tr"

section \<open>Notions used in the proofs\<close>

subsection \<open>The shape of a captured buffer\<close>

text \<open>
  \<open>addrs cs\<close> are the pointers of \<open>cs\<close> that are not \<^verbatim>\<open>NULL\<close>; \<open>received cs xs\<close> is
  what the option parser reads behind the pointers \<open>cs\<close> when they hold copies of
  \<open>xs\<close>, \<open>None\<close> where the copy failed.
\<close>

fun addrs :: "addr option list \<Rightarrow> addr list" where
  "addrs [] = []"
| "addrs (None # cs) = addrs cs"
| "addrs (Some a # cs) = a # addrs cs"

fun received :: "addr option list \<Rightarrow> string list \<Rightarrow> string option list" where
  "received (c # cs) (x # xs) = (case c of None \<Rightarrow> None | Some a \<Rightarrow> Some x) # received cs xs"
| "received cs xs = []"

text \<open>
  The loop invariant of \<^verbatim>\<open>relay_ruby_run\<close>, between the heap \<open>h0\<close> it started from
  and the heap \<open>h\<close> it has reached after the arguments \<open>xs\<close>: the structure at \<open>p\<close>
  counts them, the array \<open>argv\<close> holds the pointers \<open>cs\<close>, each of which is
  \<^verbatim>\<open>NULL\<close> or a string block of its own with the argument's characters, every block of
  the buffer was handed out since \<open>h0\<close>, every other address handed out since is dead
  again, the rest of the heap is as in \<open>h0\<close>, and nothing has been freed. When no
  request is ever refused, no pointer is \<^verbatim>\<open>NULL\<close> and each argument has cost two
  requests.
\<close>

definition buffer ::
  "heap \<Rightarrow> heap \<Rightarrow> addr \<Rightarrow> addr option \<Rightarrow> addr option list \<Rightarrow> string list \<Rightarrow> bool" where
  "buffer h0 h p argv cs xs =
     (blocks h p = Some (Options argv (of_nat (length xs)))
      \<and> length cs = length xs
      \<and> (\<forall>i < length xs. \<forall>a. cs ! i = Some a \<longrightarrow>
             blocks h a = Some (Chars (xs ! i)) \<and> fresh h0 \<le> a \<and> a < fresh h)
      \<and> distinct (p # addrs cs)
      \<and> (case argv of
            None \<Rightarrow> xs = []
          | Some q \<Rightarrow> xs \<noteq> [] \<and> q \<notin> set (p # addrs cs) \<and> fresh h0 \<le> q \<and> q < fresh h
                     \<and> blocks h q = Some (Argv (map Ptr cs)))
      \<and> fresh h0 \<le> p \<and> p < fresh h
      \<and> (\<forall>a. a \<noteq> p \<and> Some a \<noteq> argv \<and> a \<notin> set (addrs cs) \<longrightarrow>
                blocks h a = (if fresh h0 \<le> a \<and> a < fresh h then None else blocks h0 a))
      \<and> released h = released h0
      \<and> (False \<notin> set (grants h0) \<longrightarrow>
            False \<notin> set (grants h) \<and> None \<notin> set cs
            \<and> fresh h = Suc (fresh h0) + 2 * length xs))"

text \<open>The heap after the blocks \<open>bs\<close> were freed, in this order.\<close>

definition freed :: "addr list \<Rightarrow> heap \<Rightarrow> heap" where
  "freed bs h = h\<lparr>blocks := (\<lambda>a. if a \<in> set bs then None else blocks h a),
                  released := released h @ bs\<rparr>"

subsection \<open>Concrete states\<close>

text \<open>
  A heap with nothing allocated and no request refused. The bridge after
  \<^verbatim>\<open>relay_init\<close> with the simulation thread running and the script thread waiting at
  its gate; the bridge after \<^verbatim>\<open>relay_init\<close> with both threads running, which is how
  \<^verbatim>\<open>relay_ruby_run\<close> leaves them, \<^verbatim>\<open>ruby_run_handshake\<close> taking no gate before it
  runs the interpreter; and the bridge at the moment the script thread, inside
  \<^verbatim>\<open>relay_verilog\<close>, has released the simulation gate. Two environments: one that
  sets only the variable the diagnostic of \<^verbatim>\<open>main_init\<close> names, one that sets the
  variable \<^verbatim>\<open>main_init\<close> reads.
\<close>

definition empty_heap :: heap where
  "empty_heap = \<lparr>blocks = (\<lambda>a. None), fresh = 0, grants = [], released = []\<rparr>"

definition started :: bridge where
  "started = \<lparr>gates = relay_init, pending = (\<lambda>t. [])(Script := [Lock RubyLock])\<rparr>"

definition both_running :: bridge where
  "both_running = \<lparr>gates = relay_init, pending = (\<lambda>t. [])\<rparr>"

definition script_yielded :: bridge where
  "script_yielded =
     \<lparr>gates = \<lparr>rubyLock = True, verilogLock = False\<rparr>,
      pending = (\<lambda>t. [Lock RubyLock])(Simulation := [Lock VerilogLock])\<rparr>"

definition only_named :: "string \<Rightarrow> string option" where
  "only_named = (\<lambda>v. None)(''RUBY_VPI__RUBY_BENCH_FILE'' := Some ''bench.rb'')"

definition bootstrap_set :: "string \<Rightarrow> string option" where
  "bootstrap_set = (\<lambda>v. None)(''RUBYVPI_BOOTSTRAP'' := Some ''bench.rb'')"

section \<open>The alternation of the two threads\<close>

subsection \<open>One step\<close>

lemma step_Call:
  "step (Call t) s = Some s' \<Longrightarrow>
     pending s t = [] \<and> gates s' = gates s \<and> pending s' = (pending s)(t := handoff t)"
  by (auto split: if_splits)

lemma step_Exec:
  "step (Exec t) s = Some s' \<Longrightarrow>
     \<exists>c cs. pending s t = c # cs \<and> exec_op c (gates s) = Some (gates s')
            \<and> pending s' = (pending s)(t := cs)"
  by (auto split: list.splits option.splits)

lemma exec_op_Unlock:
  "exec_op (Unlock g) b = Some b' \<Longrightarrow>
     rubyLock b' = (g \<noteq> RubyLock \<and> rubyLock b)
     \<and> verilogLock b' = (g \<noteq> VerilogLock \<and> verilogLock b)"
  by (cases g) auto

lemma exec_op_Lock:
  "exec_op (Lock g) b = Some b' \<Longrightarrow>
     \<not> held g b \<and> rubyLock b' = (g = RubyLock \<or> rubyLock b)
     \<and> verilogLock b' = (g = VerilogLock \<or> verilogLock b)"
  by (cases g) (auto split: if_splits)

text \<open>The alternation is kept by a call and by a statement of either thread.\<close>

lemma alternating_call:
  assumes "alternating s" and "step (Call t) s = Some s'"
  shows "alternating s'"
proof -
  note f = step_Call [OF assms(2)]
  show ?thesis
  proof (cases t)
    case Simulation
    with assms(1) f show ?thesis
      by (simp add: alternating_def Let_def relay_ruby_def relay_verilog_def)
  next
    case Script
    with assms(1) f show ?thesis
      by (simp add: alternating_def Let_def relay_ruby_def relay_verilog_def)
  qed
qed

lemma alternating_exec:
  assumes "alternating s" and "step (Exec t) s = Some s'"
  shows "alternating s'"
proof -
  from step_Exec [OF assms(2)] obtain c cs where p: "pending s t = c # cs"
    and x: "exec_op c (gates s) = Some (gates s')" and p': "pending s' = (pending s)(t := cs)"
    by blast
  show ?thesis
  proof (cases c)
    case (Unlock g)
    note e = exec_op_Unlock [OF x [unfolded Unlock]]
    show ?thesis
    proof (cases t)
      case Simulation
      with assms(1) p p' Unlock e show ?thesis
        unfolding alternating_def Let_def relay_ruby_def relay_verilog_def
        by (elim disjE conjE) simp_all
    next
      case Script
      with assms(1) p p' Unlock e show ?thesis
        unfolding alternating_def Let_def relay_ruby_def relay_verilog_def
        by (elim disjE conjE) simp_all
    qed
  next
    case (Lock g)
    note e = exec_op_Lock [OF x [unfolded Lock]]
    show ?thesis
    proof (cases t)
      case Simulation
      with assms(1) p p' Lock e show ?thesis
        unfolding alternating_def Let_def relay_ruby_def relay_verilog_def
        by (elim disjE conjE) simp_all
    next
      case Script
      with assms(1) p p' Lock e show ?thesis
        unfolding alternating_def Let_def relay_ruby_def relay_verilog_def
        by (elim disjE conjE) simp_all
    qed
  qed
qed

lemma alternating_step:
  assumes "alternating s" and "step e s = Some s'"
  shows "alternating s'"
  using assms by (cases e) (auto intro: alternating_call alternating_exec)

lemma alternating_run:
  "alternating s \<Longrightarrow> run es s = Some s' \<Longrightarrow> alternating s'"
proof (induction es arbitrary: s)
  case Nil
  then show ?case by simp
next
  case (Cons e es)
  from Cons.prems(2) obtain s1 where "step e s = Some s1" and "run es s1 = Some s'"
    by (auto split: option.splits)
  with Cons.IH alternating_step [OF Cons.prems(1)] show ?case by blast
qed

lemma alternating_exclusive:
  "alternating s \<Longrightarrow> \<not> (active Simulation s \<and> active Script s)"
  by (auto simp: alternating_def Let_def active_def relay_ruby_def relay_verilog_def)

lemma start_alternating:
  assumes "gates s = relay_init"
      and "active Simulation s \<or> parked Simulation s"
      and "active Script s \<or> parked Script s"
      and "\<not> (active Simulation s \<and> active Script s)"
  shows "alternating s"
  using assms by (auto simp: alternating_def Let_def active_def parked_def relay_init_def)

text \<open>
  What the two handoffs keep. From both gates locked, with each thread either in its
  active region or waiting at its own gate, and at least one of them waiting, no
  sequence of events leaves both threads in their active regions.
\<close>

lemma alternation_keeps_exclusion:
  assumes "gates s0 = relay_init"
      and "active Simulation s0 \<or> parked Simulation s0"
      and "active Script s0 \<or> parked Script s0"
      and "\<not> (active Simulation s0 \<and> active Script s0)"
      and "run es s0 = Some s"
  shows "\<not> (active Simulation s \<and> active Script s)"
  using alternating_exclusive [OF alternating_run [OF start_alternating [OF assms(1-4)] assms(5)]] .

lemma alternation_keeps_exclusion_example:
  "\<exists>s. run [Call Simulation, Exec Simulation, Exec Script] started = Some s
       \<and> active Script s \<and> \<not> active Simulation s"
  by (simp add: started_def relay_init_def relay_ruby_def active_def)

text \<open>
  C1. Mutual exclusion from the state the code establishes. \<^verbatim>\<open>relay_init\<close> locks both
  gates and sets nothing else; \<^verbatim>\<open>relay_ruby_run\<close> creates the script thread and
  returns at once, and \<^verbatim>\<open>ruby_run_handshake\<close> takes no gate before it runs the
  interpreter. So the handoffs start with both gates locked and both threads outside
  every handoff, which is already two threads in their active regions. From there the
  simulation thread calls \<^verbatim>\<open>relay_ruby\<close> and the script thread calls
  \<^verbatim>\<open>relay_verilog\<close>, each releasing the gate of the other before waiting at its own:
  both calls return and both threads are in their active regions again. The property
  does not hold on the code: no thread is made to wait at its gate before the first
  handoff.
\<close>

theorem relay_start_breaks_exclusion:
  "gates both_running = relay_init
   \<and> active Simulation both_running \<and> active Script both_running
   \<and> map_option (\<lambda>s. (gates s, active Simulation s, active Script s))
        (run [Call Simulation, Exec Simulation, Call Script, Exec Script, Exec Simulation,
              Exec Script] both_running)
     = Some (relay_init, True, True)"
  by (simp add: both_running_def relay_init_def relay_ruby_def relay_verilog_def active_def)

subsection \<open>The two handoffs\<close>

lemma dual_exec:
  "exec_op (dual_op c) (dual_baton b) = map_option dual_baton (exec_op c b)"
  by (cases c; cases "case c of Unlock g \<Rightarrow> g | Lock g \<Rightarrow> g") (auto simp: dual_baton_def)

text \<open>
  C2. \<^verbatim>\<open>relay_ruby\<close> is two statements: the first releases the script side's gate
  \<^verbatim>\<open>relay__rubyLock\<close> whatever the gates were, the second cannot be executed while the
  simulation side's gate \<^verbatim>\<open>relay__verilogLock\<close> is held and takes it once it is free.
  \<^verbatim>\<open>relay_verilog\<close> is \<^verbatim>\<open>relay_ruby\<close> with the two gates exchanged, it behaves so on
  the exchanged gates, and every statement behaves on the exchanged gates as its dual
  does on the original ones.
\<close>

theorem handoffs_release_then_block:
  "relay_ruby = [Unlock RubyLock, Lock VerilogLock]
   \<and> exec_op (relay_ruby ! 0) b = Some (b\<lparr>rubyLock := False\<rparr>)
   \<and> exec_op (relay_ruby ! 1) b = (if verilogLock b then None else Some (b\<lparr>verilogLock := True\<rparr>))
   \<and> relay_verilog = map dual_op relay_ruby
   \<and> exec_op (relay_verilog ! 0) b = Some (b\<lparr>verilogLock := False\<rparr>)
   \<and> exec_op (relay_verilog ! 1) b = (if rubyLock b then None else Some (b\<lparr>rubyLock := True\<rparr>))
   \<and> exec_op (dual_op c) (dual_baton b) = map_option dual_baton (exec_op c b)"
  by (simp add: relay_ruby_def relay_verilog_def dual_exec)

subsection \<open>A handoff that is not answered\<close>

lemma gate_stays_held:
  assumes "verilogLock (gates s)"
      and "Unlock VerilogLock \<notin> set (pending s Script)"
      and "pending s Simulation = relay_ruby \<or> pending s Simulation = [Lock VerilogLock]"
      and "e \<noteq> Call Script"
      and "step e s = Some s'"
  shows "verilogLock (gates s') \<and> Unlock VerilogLock \<notin> set (pending s' Script)
       \<and> (pending s' Simulation = relay_ruby \<or> pending s' Simulation = [Lock VerilogLock])"
proof (cases e)
  case (Call t)
  with assms show ?thesis by (cases t) (auto split: if_splits)
next
  case (Exec t)
  show ?thesis
  proof (cases t)
    case Simulation
    with Exec assms show ?thesis
      by (auto simp: relay_ruby_def split: if_splits)
  next
    case Script
    with Exec assms show ?thesis
      apply (auto simp: relay_ruby_def split: if_splits list.splits option.splits)
      subgoal for c cs by (cases c; cases "case c of Unlock g \<Rightarrow> g | Lock g \<Rightarrow> g") (auto split: if_splits)
      subgoal for c cs by (cases c; cases "case c of Unlock g \<Rightarrow> g | Lock g \<Rightarrow> g") (auto split: if_splits)
      done
  qed
qed

lemma gate_stays_held_run:
  assumes "verilogLock (gates s)"
      and "Unlock VerilogLock \<notin> set (pending s Script)"
      and "pending s Simulation = relay_ruby \<or> pending s Simulation = [Lock VerilogLock]"
      and "Call Script \<notin> set es"
      and "run es s = Some s'"
  shows "verilogLock (gates s')
       \<and> (pending s' Simulation = relay_ruby \<or> pending s' Simulation = [Lock VerilogLock])"
  using assms
proof (induction es arbitrary: s)
  case Nil
  then show ?case by simp
next
  case (Cons e es)
  from Cons.prems(5) obtain s1 where s1: "step e s = Some s1" "run es s1 = Some s'"
    by (auto split: option.splits)
  from Cons.prems(4) have "e \<noteq> Call Script" "Call Script \<notin> set es" by auto
  from gate_stays_held [OF Cons.prems(1-3) this(1) s1(1)] Cons.IH [OF _ _ _ this(2) s1(2)]
  show ?case by blast
qed

text \<open>
  C6. Let a call of \<^verbatim>\<open>relay_ruby\<close> return (the simulation thread executes its last
  statement, the lock), with the script thread not about to release the simulation
  gate. When the simulation thread then calls \<^verbatim>\<open>relay_ruby\<close> again, then whatever both
  threads do next, as long as the script thread does not call \<^verbatim>\<open>relay_verilog\<close>, the
  simulation thread is still inside that second call: it has yet to release the script
  gate, or it is blocked at its own gate. No event of the model reports the misuse.
\<close>

theorem second_relay_ruby_never_returns:
  assumes "pending s1 Simulation = [Lock VerilogLock]"
      and "step (Exec Simulation) s1 = Some s"
      and "Unlock VerilogLock \<notin> set (pending s Script)"
      and "Call Script \<notin> set es"
      and "run (Call Simulation # es) s = Some s'"
  shows "\<not> active Simulation s'
       \<and> (pending s' Simulation = relay_ruby \<or> step (Exec Simulation) s' = None)"
proof -
  from assms(1,2) have s: "pending s Simulation = []" "verilogLock (gates s)"
    by (auto split: option.splits if_splits)
  define s2 where "s2 = s\<lparr>pending := (pending s)(Simulation := relay_ruby)\<rparr>"
  from assms(5) s(1) have r: "run es s2 = Some s'" by (simp add: s2_def)
  have "verilogLock (gates s2)" "Unlock VerilogLock \<notin> set (pending s2 Script)"
    "pending s2 Simulation = relay_ruby \<or> pending s2 Simulation = [Lock VerilogLock]"
    using s(2) assms(3) by (simp_all add: s2_def)
  from gate_stays_held_run [OF this assms(4) r]
  show ?thesis by (auto simp: active_def relay_ruby_def)
qed

theorem second_relay_ruby_never_returns_witness:
  "pending script_yielded Simulation = [Lock VerilogLock]
   \<and> (\<exists>s s'. step (Exec Simulation) script_yielded = Some s
        \<and> Unlock VerilogLock \<notin> set (pending s Script)
        \<and> Call Script \<notin> set [Exec Simulation, Exec Script]
        \<and> run (Call Simulation # [Exec Simulation, Exec Script]) s = Some s'
        \<and> active Script s'
        \<and> \<not> active Simulation s'
        \<and> (pending s' Simulation = relay_ruby \<or> step (Exec Simulation) s' = None))"
proof -
  have h1: "pending script_yielded Simulation = [Lock VerilogLock]"
    by (simp add: script_yielded_def)
  have "\<exists>s s'. step (Exec Simulation) script_yielded = Some s
          \<and> Unlock VerilogLock \<notin> set (pending s Script)
          \<and> run (Call Simulation # [Exec Simulation, Exec Script]) s = Some s'
          \<and> active Script s'"
    by (simp add: script_yielded_def relay_ruby_def active_def)
  then obtain s s' where h2: "step (Exec Simulation) script_yielded = Some s"
    and h3: "Unlock VerilogLock \<notin> set (pending s Script)"
    and h5: "run (Call Simulation # [Exec Simulation, Exec Script]) s = Some s'"
    and a: "active Script s'" by blast
  have h4: "Call Script \<notin> set [Exec Simulation, Exec Script]" by simp
  from second_relay_ruby_never_returns [OF h1 h2 h3 h4 h5]
  have ex: "\<not> active Simulation s'"
    "pending s' Simulation = relay_ruby \<or> step (Exec Simulation) s' = None" by simp_all
  have "\<exists>s s'. step (Exec Simulation) script_yielded = Some s
        \<and> Unlock VerilogLock \<notin> set (pending s Script)
        \<and> Call Script \<notin> set [Exec Simulation, Exec Script]
        \<and> run (Call Simulation # [Exec Simulation, Exec Script]) s = Some s'
        \<and> active Script s'
        \<and> \<not> active Simulation s'
        \<and> (pending s' Simulation = relay_ruby \<or> step (Exec Simulation) s' = None)"
    by (rule exI [of _ s], rule exI [of _ s']) (intro conjI h2 h3 h4 h5 a ex)
  with h1 show ?thesis by (intro conjI)
qed

subsection \<open>The callable given to the interpreter\<close>

text \<open>
  C9. \<^verbatim>\<open>main_relay_verilog\<close> makes exactly one baton call, \<^verbatim>\<open>relay_verilog\<close>, whose
  statements are the script thread's handoff, and returns its receiver as it was.
\<close>

theorem main_relay_verilog_yields_once:
  "main_relay_verilog arSelf = ([Relay_verilog], arSelf)
   \<and> length (fst (main_relay_verilog arSelf)) = 1
   \<and> concat (map body (fst (main_relay_verilog arSelf))) = handoff Script
   \<and> snd (main_relay_verilog arSelf) = arSelf"
  by (simp add: main_relay_verilog_def)

section \<open>The argument buffer from capture to release\<close>

subsection \<open>Pointers, counters and requests\<close>

lemma addrs_append: "addrs (cs @ ds) = addrs cs @ addrs ds"
  by (induction cs rule: addrs.induct) auto

lemma set_addrs: "set (addrs cs) = {a. Some a \<in> set cs}"
  by (induction cs rule: addrs.induct) auto

lemma addrs_all: "None \<notin> set cs \<Longrightarrow> map Some (addrs cs) = cs"
  by (induction cs rule: addrs.induct) auto

lemma None_neq: "(None \<noteq> c) = (\<exists>y. c = Some y)"
  by (cases c) auto

lemma received_all: "None \<notin> set cs \<Longrightarrow> length cs = length xs \<Longrightarrow> received cs xs = map Some xs"
  by (induction cs xs rule: received.induct) (auto simp: None_neq)

lemma plenty_case: "False \<notin> set gs \<Longrightarrow> (case gs of [] \<Rightarrow> True | g # x \<Rightarrow> g)"
  by (cases gs) auto

lemma plenty_tl: "False \<notin> set gs \<Longrightarrow> False \<notin> set (tl gs)"
  by (cases gs) auto

lemma refused: "\<not> granted h \<Longrightarrow> False \<in> set (grants h)"
  by (cases "grants h") (auto simp: granted_def)

lemma unat_count_Suc:
  assumes "Suc k < 2 ^ 32"
  shows "unat (of_nat k + 1 :: 32 word) = Suc k" and "unat (of_nat k :: 32 word) = k"
proof -
  have "(of_nat k + 1 :: 32 word) = of_nat (Suc k)" by simp
  with assms show "unat (of_nat k + 1 :: 32 word) = Suc k"
    by (simp only: unat_of_nat) simp
  from assms show "unat (of_nat k :: 32 word) = k"
    by (simp add: unat_of_nat)
qed

lemma sint_count:
  assumes "k < 2 ^ 31"
  shows "sint (of_nat k :: 32 word) = int k"
proof -
  have "sint (of_nat k :: 32 word) = signed_take_bit 31 (int k)"
    by (simp add: signed_of_nat)
  also have "\<dots> = int k"
    using assms by (simp add: signed_take_bit_int_eq_self)
  finally show ?thesis .
qed

lemma update_last: "length cs = k \<Longrightarrow> (map f cs @ [x])[k := y] = map f cs @ [y]"
  by (simp add: list_update_append)

subsection \<open>The loop of \<^verbatim>\<open>relay_ruby_run\<close>\<close>

lemma buffer_bounds:
  assumes "buffer h0 h p argv cs xs" and "a \<in> set (addrs cs)"
  shows "fresh h0 \<le> a" and "a < fresh h" and "blocks h a \<noteq> None"
  using assms by (auto simp: buffer_def set_addrs in_set_conv_nth)

lemma buffer_start:
  assumes "alloc (Options None 0) h0 = (Some p, h)"
  shows "buffer h0 h p None [] []"
  using assms by (auto simp: alloc_def buffer_def plenty_tl split: if_splits)

lemma alloc_plenty:
  assumes "False \<notin> set (grants h0)"
  shows "\<exists>p h. alloc b h0 = (Some p, h)"
  using assms by (simp add: alloc_def granted_def plenty_case)

text \<open>
  One round on fewer than \<open>2^32 - 1\<close> arguments either fails the assertion, a request
  having been refused, or extends the buffer by one pointer.
\<close>

lemma capture_arg_buffer:
  assumes b: "buffer h0 h p argv cs xs" and k: "Suc (length xs) < 2 ^ 32"
  shows "(capture_arg s p h = Inl AssertionFailed \<and> False \<in> set (grants h0))
       \<or> (\<exists>h' c. capture_arg s p h = Inr h' \<and> buffer h0 h' p (Some (fresh h)) (cs @ [c]) (xs @ [s]))"
proof -
  have n: "unat (of_nat (length xs) + 1 :: 32 word) = Suc (length xs)"
          "unat (of_nat (length xs) :: 32 word) = length xs"
    using k unat_count_Suc [of "length xs"] by simp_all
  have nf: "fresh h \<notin> set (addrs cs)" "Suc (fresh h) \<notin> set (addrs cs)"
    using buffer_bounds(2) [OF b] by fastforce+
  have p: "blocks h p = Some (Options argv (of_nat (length xs)))" "p < fresh h"
    using b by (auto simp: buffer_def)
  show ?thesis
  proof (cases "granted h")
    case False
    then have "False \<in> set (grants h0)" using b refused by (auto simp: buffer_def)
    moreover have "capture_arg s p h = Inl AssertionFailed"
      using False p b by (auto simp: capture_arg_def alloc_def realloc_def Let_def buffer_def split: option.splits)
    ultimately show ?thesis by simp
  next
    case True
    show ?thesis
    proof (cases argv)
      case None
      have "\<exists>h'. capture_arg s p h = Inr h'
               \<and> buffer h0 h' p (Some (fresh h)) (cs @ [if granted (h\<lparr>grants := tl (grants h)\<rparr>) then Some (Suc (fresh h)) else None]) (xs @ [s])"
        using b True None
        by (auto simp: capture_arg_def alloc_def Let_def buffer_def granted_def plenty_case plenty_tl)
      then show ?thesis by blast
    next
      case (Some q)
      have "\<exists>h'. capture_arg s p h = Inr h'
               \<and> buffer h0 h' p (Some (fresh h)) (cs @ [if granted (h\<lparr>grants := tl (grants h)\<rparr>) then Some (Suc (fresh h)) else None]) (xs @ [s])"
        using b True Some nf
        by (auto simp: capture_arg_def alloc_def realloc_def Let_def buffer_def granted_def plenty_case plenty_tl n nth_append update_last addrs_append)
      then show ?thesis by blast
    qed
  qed
qed

text \<open>
  The round after \<open>2^32 - 1\<close> arguments wraps \<^verbatim>\<open>mCount\<close> to 0: the array is
  reallocated to no elements and the store at \<^verbatim>\<open>mCount - 1\<close> is outside it, or the
  assertion fails.
\<close>

lemma capture_arg_full:
  assumes b: "buffer h0 h p argv cs xs" and k: "Suc (length xs) = 2 ^ 32"
  shows "\<exists>e. capture_arg s p h = Inl e"
proof -
  from k have len: "length xs = 4294967295" by simp
  then have "xs \<noteq> []" by auto
  with b obtain q where q: "argv = Some q" "blocks h q = Some (Argv (map Ptr cs))"
    by (cases argv) (auto simp: buffer_def)
  have p: "blocks h p = Some (Options (Some q) (of_nat (length xs)))" "p < fresh h"
    using b q by (auto simp: buffer_def)
  have n: "(of_nat (length xs) + 1 :: 32 word) = 0" by (simp add: len)
  show ?thesis
    using p q
    by (auto simp: capture_arg_def n realloc_def alloc_def Let_def split: if_splits)
qed

lemma scan_args_buffer:
  assumes "buffer h0 h p argv cs xs" and "length xs < 2 ^ 32" and "scan_args ys p h = Inr h'"
  shows "length xs + length ys < 2 ^ 32 \<and> (\<exists>argv' ds. buffer h0 h' p argv' (cs @ ds) (xs @ ys))"
  using assms
proof (induction ys arbitrary: h argv cs xs)
  case Nil
  then have "buffer h0 h' p argv (cs @ []) (xs @ [])" by simp
  with Nil.prems(2) show ?case by (simp del: append_Nil2) blast
next
  case (Cons y ys)
  from Cons.prems(3) obtain h1 where h1: "capture_arg y p h = Inr h1" "scan_args ys p h1 = Inr h'"
    by (auto split: sum.splits)
  have k: "Suc (length xs) < 2 ^ 32"
  proof (rule ccontr)
    assume "\<not> Suc (length xs) < 2 ^ 32"
    with Cons.prems(2) have "Suc (length xs) = 2 ^ 32" by simp
    from capture_arg_full [OF Cons.prems(1) this, of y] h1(1) show False by auto
  qed
  from capture_arg_buffer [OF Cons.prems(1) k, of y] h1(1)
  obtain c where b1: "buffer h0 h1 p (Some (fresh h)) (cs @ [c]) (xs @ [y])" by auto
  from k have "length (xs @ [y]) < 2 ^ 32" by simp
  from Cons.IH [OF b1 this h1(2)] obtain argv' ds
    where "length xs + length (y # ys) < 2 ^ 32" and "buffer h0 h' p argv' ((cs @ [c]) @ ds) ((xs @ [y]) @ ys)"
    by auto
  then have "length xs + length (y # ys) < 2 ^ 32" and "buffer h0 h' p argv' (cs @ c # ds) (xs @ y # ys)"
    by simp_all
  then show ?case by blast
qed

lemma scan_args_plenty:
  assumes "buffer h0 h p argv cs xs" and "False \<notin> set (grants h0)"
      and "length xs + length ys < 2 ^ 32"
  shows "\<exists>h'. scan_args ys p h = Inr h'"
  using assms
proof (induction ys arbitrary: h argv cs xs)
  case Nil
  then show ?case by simp
next
  case (Cons y ys)
  from Cons.prems(3) have k: "Suc (length xs) < 2 ^ 32" by simp
  from capture_arg_buffer [OF Cons.prems(1) k, of y] Cons.prems(2)
  obtain h1 c where h1: "capture_arg y p h = Inr h1"
    and b1: "buffer h0 h1 p (Some (fresh h)) (cs @ [c]) (xs @ [y])" by auto
  from Cons.prems(3) have "length (xs @ [y]) + length ys < 2 ^ 32" by simp
  from Cons.IH [OF b1 Cons.prems(2) this] h1 show ?case by simp
qed

lemma spawned_buffer:
  assumes "relay_ruby_run vCall h0 = Spawned p h"
  shows "length (arguments vCall) < 2 ^ 32 \<and> (\<exists>argv cs. buffer h0 h p argv cs (arguments vCall))"
proof -
  from assms obtain h1 where a: "alloc (Options None 0) h0 = (Some p, h1)"
    by (auto simp: relay_ruby_run_def split: prod.splits option.splits sysTfCall.splits sum.splits fault.splits)
  then have b: "buffer h0 h1 p None [] []" by (rule buffer_start)
  show ?thesis
  proof (cases vCall)
    case NoCall
    with assms a b show ?thesis by (auto simp: relay_ruby_run_def)
  next
    case NoArguments
    with assms a b show ?thesis by (auto simp: relay_ruby_run_def)
  next
    case (Arguments xs)
    with assms a have "scan_args xs p h1 = Inr h"
      by (auto simp: relay_ruby_run_def split: sum.splits fault.splits)
    from scan_args_buffer [OF b _ this] Arguments show ?thesis by simp
  qed
qed

lemma plenty_spawned:
  assumes "False \<notin> set (grants h0)" and "length (arguments vCall) < 2 ^ 32"
  shows "\<exists>p h. relay_ruby_run vCall h0 = Spawned p h"
proof -
  from alloc_plenty [OF assms(1)] obtain p h1 where a: "alloc (Options None 0) h0 = (Some p, h1)"
    by blast
  then have b: "buffer h0 h1 p None [] []" by (rule buffer_start)
  show ?thesis
  proof (cases vCall)
    case (Arguments xs)
    with assms(2) have "length ([] :: string list) + length xs < 2 ^ 32" by simp
    from scan_args_plenty [OF b assms(1) this] obtain h where "scan_args xs p h1 = Inr h" by blast
    with a Arguments show ?thesis by (simp add: relay_ruby_run_def)
  qed (use a in \<open>simp_all add: relay_ruby_run_def\<close>)
qed

subsection \<open>The loop of \<^verbatim>\<open>ruby_run_handshake\<close>\<close>

lemma read_strings_copies:
  assumes "length cs = length xs"
      and "\<forall>i < length xs. \<forall>a. cs ! i = Some a \<longrightarrow> blocks h a = Some (Chars (xs ! i))"
  shows "read_strings h (map Ptr cs) = Some (received cs xs)"
  using assms
proof (induction cs xs rule: list_induct2)
  case Nil
  then show ?case by simp
next
  case (Cons c cs x xs)
  from Cons.prems have hd: "\<forall>a. c = Some a \<longrightarrow> blocks h a = Some (Chars x)" by auto
  from Cons.prems have "\<forall>i < length xs. \<forall>a. cs ! i = Some a \<longrightarrow> blocks h a = Some (Chars (xs ! i))"
    by auto
  with Cons.IH have "read_strings h (map Ptr cs) = Some (received cs xs)" by simp
  with hd show ?case by (cases c) auto
qed

lemma addrs_take_Suc:
  "i < length cs \<Longrightarrow> addrs (take (Suc i) cs) = addrs (take i cs) @ addrs [cs ! i]"
  by (simp add: take_Suc_conv_app_nth addrs_append)

lemma addrs_split:
  "i < length cs \<Longrightarrow> addrs cs = addrs (take i cs) @ addrs [cs ! i] @ addrs (drop (Suc i) cs)"
  by (metis addrs_append append_Cons append_Nil id_take_nth_drop)

lemma freed_step:
  assumes "i < length cs" and "distinct (addrs cs)"
      and "\<forall>a \<in> set (addrs cs). blocks h a \<noteq> None"
  shows "free (cs ! i) (freed (addrs (take i cs)) h) = Some (freed (addrs (take (Suc i) cs)) h)"
proof (cases "cs ! i")
  case None
  with assms(1) show ?thesis by (simp add: free_def addrs_take_Suc)
next
  case (Some a)
  with assms(1,2) have "a \<notin> set (addrs (take i cs))"
    using addrs_split [OF assms(1)] by auto
  moreover from Some assms(1) have "a \<in> set (addrs cs)"
    by (auto simp: set_addrs in_set_conv_nth)
  with assms(3) have "blocks h a \<noteq> None" by simp
  ultimately show ?thesis
    using Some assms(1) by (auto simp: free_def freed_def addrs_take_Suc fun_eq_iff)
qed

lemma word_count_less:
  assumes "i < n" and "n < 2 ^ 32"
  shows "(of_nat i :: 32 word) < of_nat n" and "unat (of_nat i :: 32 word) = i"
  using assms by (simp_all add: word_less_nat_alt unat_of_nat)

lemma free_args_buffer:
  assumes "blocks h q = Some (Argv (map Ptr cs))"
      and "q \<notin> set (addrs cs)" and "distinct (addrs cs)"
      and "\<forall>a \<in> set (addrs cs). blocks h a \<noteq> None"
      and "length cs < 2 ^ 32" and "i \<le> length cs"
  shows "free_args (of_nat i) (of_nat (length cs)) (Some q) (freed (addrs (take i cs)) h)
         = Some (map Free (drop i cs), freed (addrs cs) h)"
  using assms(6)
proof (induction "length cs - i" arbitrary: i)
  case 0
  then have "i = length cs" by simp
  then show ?case by (subst free_args.simps) simp
next
  case (Suc k)
  then have i: "i < length cs" by simp
  have "q \<notin> set (addrs (take i cs))"
    using assms(2) addrs_split [OF i] by auto
  then have q: "blocks (freed (addrs (take i cs)) h) q = Some (Argv (map Ptr cs))"
    using assms(1) by (simp add: freed_def)
  have next_i: "(of_nat i + 1 :: 32 word) = of_nat (Suc i)" by simp
  have rec: "free_args (of_nat (Suc i)) (of_nat (length cs)) (Some q) (freed (addrs (take (Suc i) cs)) h)
             = Some (map Free (drop (Suc i) cs), freed (addrs cs) h)"
    using Suc.hyps(1) [of "Suc i"] Suc.hyps(2) i by simp
  show ?case
    apply (subst free_args.simps)
    apply (simp only: word_count_less [OF i assms(5)] if_True option.case q block.case
                      length_map i nth_map slot.case freed_step [OF i assms(3,4)] next_i rec
                      prod.case)
    apply (simp add: Cons_nth_drop_Suc [OF i, symmetric])
    done
qed

subsection \<open>A whole launch\<close>

lemma handshake_buffer:
  assumes "buffer h0 h p argv cs xs" and "length xs < 2 ^ 32"
  shows "ruby_run_handshake p h =
           Some ([RubyInit, RubyInitLoadpath, SwigInit, RubyOptions (sint (of_nat (length xs) :: 32 word)) (received cs xs)]
                 @ map Free cs
                 @ [Free argv, Free (Some p), RubyRun, RubyFinalize],
                 h\<lparr>blocks := (\<lambda>a. if fresh h0 \<le> a \<and> a < fresh h then None else blocks h0 a),
                   released := released h0 @ addrs cs @ addrs [argv] @ [p]\<rparr>)"
proof -
  have len: "length cs = length xs" and n: "unat (of_nat (length xs) :: 32 word) = length xs"
    using assms by (auto simp: buffer_def unat_of_nat)
  have p: "blocks h p = Some (Options argv (of_nat (length xs)))"
    using assms(1) by (simp add: buffer_def)
  have strs: "\<forall>i < length xs. \<forall>a. cs ! i = Some a \<longrightarrow> blocks h a = Some (Chars (xs ! i))"
    using assms(1) by (simp add: buffer_def)
  have bounds: "\<forall>a \<in> set (addrs cs). fresh h0 \<le> a \<and> a < fresh h"
    using buffer_bounds [OF assms(1)] by blast
  have live: "\<forall>a \<in> set (addrs cs). blocks h a \<noteq> None"
    using buffer_bounds [OF assms(1)] by blast
  have dist: "distinct (addrs cs)" "p \<notin> set (addrs cs)" using assms(1) by (auto simp: buffer_def)
  show ?thesis
  proof (cases argv)
    case None
    with assms(1) have e: "xs = []" "cs = []" by (auto simp: buffer_def)
    have loop: "free_args 0 0 None h = Some ([], h)" by (subst free_args.simps) simp
    from assms(1) None e show ?thesis
      by (auto simp: ruby_run_handshake_def argv_strings_def loop free_def buffer_def fun_eq_iff
               intro!: heap.equality)
  next
    case (Some q)
    with assms(1) have q: "blocks h q = Some (Argv (map Ptr cs))"
      "q \<notin> set (addrs cs)" "q \<noteq> p" "fresh h0 \<le> q" "q < fresh h"
      by (auto simp: buffer_def)
    have args: "argv_strings (Some q) (unat (of_nat (length xs) :: 32 word)) h = Some (received cs xs)"
      using q(1) len n read_strings_copies [OF len strs] by (simp add: argv_strings_def)
    have loop: "free_args 0 (of_nat (length xs)) (Some q) h = Some (map Free cs, freed (addrs cs) h)"
      using free_args_buffer [OF q(1,2) dist(1) live, of 0] assms(2) len
      by (simp add: freed_def)
    have f1: "free (Some q) (freed (addrs cs) h) = Some (freed (addrs cs @ [q]) h)"
      using q by (auto simp: free_def freed_def fun_eq_iff)
    have f2: "free (Some p) (freed (addrs cs @ [q]) h) = Some (freed (addrs cs @ [q, p]) h)"
      using p dist q by (auto simp: free_def freed_def fun_eq_iff)
    have final: "freed (addrs cs @ [q, p]) h =
        h\<lparr>blocks := (\<lambda>a. if fresh h0 \<le> a \<and> a < fresh h then None else blocks h0 a),
          released := released h0 @ addrs cs @ [q] @ [p]\<rparr>"
      using assms(1) Some bounds by (auto simp: freed_def buffer_def fun_eq_iff)
    show ?thesis
      using Some by (simp add: ruby_run_handshake_def p args loop f1 f2 final)
  qed
qed

lemma launch_shape:
  assumes "launch_cycle vCall h0 = Some (tr, h')"
  shows "\<exists>p h argv cs.
           relay_ruby_run vCall h0 = Spawned p h
         \<and> buffer h0 h p argv cs (arguments vCall)
         \<and> length (arguments vCall) < 2 ^ 32
         \<and> tr = [RubyInit, RubyInitLoadpath, SwigInit,
                 RubyOptions (sint (of_nat (length (arguments vCall)) :: 32 word)) (received cs (arguments vCall))]
                @ map Free cs @ [Free argv, Free (Some p), RubyRun, RubyFinalize]
         \<and> h' = h\<lparr>blocks := (\<lambda>a. if fresh h0 \<le> a \<and> a < fresh h then None else blocks h0 a),
                   released := released h0 @ addrs cs @ addrs [argv] @ [p]\<rparr>"
proof -
  from assms obtain p h where s: "relay_ruby_run vCall h0 = Spawned p h"
    and r: "ruby_run_handshake p h = Some (tr, h')"
    by (auto simp: launch_cycle_def split: launch.splits)
  from spawned_buffer [OF s] obtain argv cs
    where k: "length (arguments vCall) < 2 ^ 32" and b: "buffer h0 h p argv cs (arguments vCall)"
    by blast
  from handshake_buffer [OF b k] r s b k show ?thesis by auto
qed

lemma launch_completes:
  assumes "False \<notin> set (grants h0)" and "length (arguments vCall) < 2 ^ 32"
  shows "\<exists>tr h'. launch_cycle vCall h0 = Some (tr, h')"
proof -
  from plenty_spawned [OF assms] obtain p h where s: "relay_ruby_run vCall h0 = Spawned p h" by blast
  from spawned_buffer [OF s] obtain argv cs where "buffer h0 h p argv cs (arguments vCall)" by blast
  from handshake_buffer [OF this assms(2)] s show ?thesis by (simp add: launch_cycle_def)
qed

text \<open>
  C3. Argument fidelity, for fewer than \<open>2^31\<close> arguments. Let no allocation be
  refused and the source have \<open>k < 2^31\<close> strings, of any content; no handle and no
  iterator count as the empty source. Then
  \<^verbatim>\<open>relay_ruby_run\<close> creates the script thread on a structure whose count is \<open>k\<close>
  and whose array, none for \<open>k = 0\<close>, points to \<open>k\<close> distinct string blocks, all
  handed out during the call, holding the source strings in their order; the capture
  has made one request for the structure and two for each string; and the thread gives
  \<^verbatim>\<open>ruby_options\<close> the \<^verbatim>\<open>int\<close> count \<open>k\<close> and exactly the source strings, in
  order.
\<close>

theorem argument_fidelity:
  assumes "False \<notin> set (grants h0)" and "length (arguments vCall) < 2 ^ 31"
  shows "\<exists>p h argv as fs h'.
           relay_ruby_run vCall h0 = Spawned p h
         \<and> blocks h p = Some (Options argv (of_nat (length (arguments vCall))))
         \<and> unat (of_nat (length (arguments vCall)) :: 32 word) = length (arguments vCall)
         \<and> (case argv of None \<Rightarrow> as = []
                        | Some q \<Rightarrow> blocks h q = Some (Argv (map (\<lambda>a. Ptr (Some a)) as)))
         \<and> map (blocks h) as = map (\<lambda>x. Some (Chars x)) (arguments vCall)
         \<and> distinct as \<and> (\<forall>a \<in> set as. fresh h0 \<le> a \<and> a < fresh h)
         \<and> fresh h = Suc (fresh h0) + 2 * length (arguments vCall)
         \<and> ruby_run_handshake p h =
             Some ([RubyInit, RubyInitLoadpath, SwigInit,
                    RubyOptions (int (length (arguments vCall))) (map Some (arguments vCall))]
                   @ fs, h')"
proof -
  let ?xs = "arguments vCall"
  from assms(2) have k: "length ?xs < 2 ^ 32" by simp
  from plenty_spawned [OF assms(1) k] obtain p h where s: "relay_ruby_run vCall h0 = Spawned p h"
    by blast
  from spawned_buffer [OF s] obtain argv cs where b: "buffer h0 h p argv cs ?xs" by blast
  from b assms(1) have all: "None \<notin> set cs" and len: "length cs = length ?xs"
    and fr: "fresh h = Suc (fresh h0) + 2 * length ?xs"
    by (auto simp: buffer_def)
  define as where "as = addrs cs"
  have cs: "cs = map Some as" using addrs_all [OF all] by (simp add: as_def)
  have las: "length as = length ?xs" using len cs by simp
  have p: "blocks h p = Some (Options argv (of_nat (length ?xs)))" using b by (simp add: buffer_def)
  have n: "unat (of_nat (length ?xs) :: 32 word) = length ?xs"
    using k by (simp add: unat_of_nat)
  have q: "case argv of None \<Rightarrow> as = []
                       | Some q \<Rightarrow> blocks h q = Some (Argv (map (\<lambda>a. Ptr (Some a)) as))"
    using b cs las by (auto simp: buffer_def comp_def split: option.splits)
  have copies: "map (blocks h) as = map (\<lambda>x. Some (Chars x)) ?xs"
    using b cs las by (auto simp: buffer_def list_eq_iff_nth_eq)
  have d: "distinct as" using b by (simp add: buffer_def as_def)
  have new: "\<forall>a \<in> set as. fresh h0 \<le> a \<and> a < fresh h"
    using buffer_bounds [OF b] by (auto simp: as_def)
  have r: "received cs ?xs = map Some ?xs" using received_all [OF all len] .
  from handshake_buffer [OF b k] r sint_count [OF assms(2)]
  have "\<exists>fs h'. ruby_run_handshake p h =
             Some ([RubyInit, RubyInitLoadpath, SwigInit,
                    RubyOptions (int (length ?xs)) (map Some ?xs)] @ fs, h')"
    by simp
  with s p n q copies d new fr show ?thesis by blast
qed

theorem argument_fidelity_witness:
  "False \<notin> set (grants empty_heap)
   \<and> length (arguments (Arguments [''a.rb'', ''--seed'', ''42''])) < 2 ^ 31
   \<and> (\<exists>p h fs h'.
         relay_ruby_run (Arguments [''a.rb'', ''--seed'', ''42'']) empty_heap = Spawned p h
       \<and> blocks h p = Some (Options (Some 5) 3)
       \<and> blocks h 5 = Some (Argv [Ptr (Some 2), Ptr (Some 4), Ptr (Some 6)])
       \<and> map (blocks h) [2, 4, 6] = [Some (Chars ''a.rb''), Some (Chars ''--seed''), Some (Chars ''42'')]
       \<and> ruby_run_handshake p h =
           Some ([RubyInit, RubyInitLoadpath, SwigInit,
                  RubyOptions 3 [Some ''a.rb'', Some ''--seed'', Some ''42'']] @ fs, h'))"
proof -
  have h1: "False \<notin> set (grants empty_heap)" by (simp add: empty_heap_def)
  have h2: "length (arguments (Arguments [''a.rb'', ''--seed'', ''42''])) < 2 ^ 31" by simp
  from argument_fidelity [OF h1 h2] obtain p h fs h'
    where s: "relay_ruby_run (Arguments [''a.rb'', ''--seed'', ''42'']) empty_heap = Spawned p h"
      and r: "ruby_run_handshake p h =
           Some ([RubyInit, RubyInitLoadpath, SwigInit,
                  RubyOptions 3 [Some ''a.rb'', Some ''--seed'', Some ''42'']] @ fs, h')"
    by auto
  have e: "case relay_ruby_run (Arguments [''a.rb'', ''--seed'', ''42'']) empty_heap of
             Spawned p h \<Rightarrow>
               blocks h p = Some (Options (Some 5) 3)
             \<and> blocks h 5 = Some (Argv [Ptr (Some 2), Ptr (Some 4), Ptr (Some 6)])
             \<and> map (blocks h) [2, 4, 6]
                 = [Some (Chars ''a.rb''), Some (Chars ''--seed''), Some (Chars ''42'')]
           | _ \<Rightarrow> False"
    by (simp add: relay_ruby_run_def empty_heap_def alloc_def granted_def capture_arg_def
          realloc_def Let_def)
  from e s have v: "blocks h p = Some (Options (Some 5) 3)
       \<and> blocks h 5 = Some (Argv [Ptr (Some 2), Ptr (Some 4), Ptr (Some 6)])
       \<and> map (blocks h) [2, 4, 6] = [Some (Chars ''a.rb''), Some (Chars ''--seed''), Some (Chars ''42'')]"
    by simp
  have "\<exists>p h fs h'.
         relay_ruby_run (Arguments [''a.rb'', ''--seed'', ''42'']) empty_heap = Spawned p h
       \<and> blocks h p = Some (Options (Some 5) 3)
       \<and> blocks h 5 = Some (Argv [Ptr (Some 2), Ptr (Some 4), Ptr (Some 6)])
       \<and> map (blocks h) [2, 4, 6] = [Some (Chars ''a.rb''), Some (Chars ''--seed''), Some (Chars ''42'')]
       \<and> ruby_run_handshake p h =
           Some ([RubyInit, RubyInitLoadpath, SwigInit,
                  RubyOptions 3 [Some ''a.rb'', Some ''--seed'', Some ''42'']] @ fs, h')"
    by (rule exI [of _ p], rule exI [of _ h], rule exI [of _ fs], rule exI [of _ h'])
       (intro conjI s r v [THEN conjunct1] v [THEN conjunct2, THEN conjunct1]
          v [THEN conjunct2, THEN conjunct2])
  with h1 h2 show ?thesis by (intro conjI)
qed

text \<open>
  The empty source, in its three forms, goes through the same code: the structure is
  the whole buffer, \<^verbatim>\<open>ruby_options\<close> gets the count 0, the loop frees nothing and
  \<^verbatim>\<open>free\<close> is called on the \<^verbatim>\<open>NULL\<close> array and on the structure.
\<close>

lemma empty_source_launch:
  "map_option fst (launch_cycle NoCall empty_heap)
     = Some [RubyInit, RubyInitLoadpath, SwigInit, RubyOptions 0 [],
             Free None, Free (Some 0), RubyRun, RubyFinalize]
   \<and> launch_cycle NoArguments empty_heap = launch_cycle NoCall empty_heap
   \<and> launch_cycle (Arguments []) empty_heap = launch_cycle NoCall empty_heap"
  by (simp add: launch_cycle_def relay_ruby_run_def empty_heap_def alloc_def granted_def
        ruby_run_handshake_def argv_strings_def free_def free_args.simps)

text \<open>
  The bound on \<open>k\<close> is needed. With \<open>2^31\<close> arguments, here empty strings on a heap
  that refuses nothing, the capture succeeds and \<^verbatim>\<open>mCount\<close> is \<open>2^31\<close>, but the
  count \<^verbatim>\<open>ruby_options\<close> gets, the fourth call of the thread, is \<open>- 2^31\<close>: the
  parser is not given \<open>2^31\<close> arguments.
\<close>

theorem argument_count_negative:
  "map_option (\<lambda>(tr, h). tr ! 3) (launch_cycle (Arguments (replicate 2147483648 [])) empty_heap)
   = Some (RubyOptions (- 2147483648) (replicate 2147483648 (Some [])))"
proof -
  let ?c = "Arguments (replicate 2147483648 [])"
  have g: "False \<notin> set (grants empty_heap)" by (simp add: empty_heap_def)
  have k: "length (arguments ?c) < 2 ^ 32" by simp
  from launch_completes [OF g k] obtain tr h' where l: "launch_cycle ?c empty_heap = Some (tr, h')"
    by blast
  from launch_shape [OF l] obtain p h argv cs
    where b: "buffer empty_heap h p argv cs (arguments ?c)"
      and tr: "tr = [RubyInit, RubyInitLoadpath, SwigInit,
                 RubyOptions (sint (of_nat (length (arguments ?c)) :: 32 word))
                   (received cs (arguments ?c))]
                @ map Free cs @ [Free argv, Free (Some p), RubyRun, RubyFinalize]"
    by blast
  from b g have "None \<notin> set cs" and "length cs = length (arguments ?c)"
    by (auto simp: buffer_def)
  then have "received cs (arguments ?c) = map Some (arguments ?c)" by (rule received_all)
  with tr have "tr ! 3 = RubyOptions (- 2147483648) (replicate 2147483648 (Some []))"
    by simp
  with l show ?thesis by simp
qed

text \<open>
  With \<open>2^32\<close> arguments the launch cycle does not complete and \<^verbatim>\<open>ruby_options\<close> is
  never called: at the last argument \<^verbatim>\<open>mCount\<close> wraps to 0.
\<close>

lemma argument_count_wraps:
  "launch_cycle (Arguments (replicate 4294967296 [])) empty_heap = None"
proof (cases "launch_cycle (Arguments (replicate 4294967296 [])) empty_heap")
  case None
  then show ?thesis .
next
  case (Some r)
  obtain tr h' where "r = (tr, h')" by (cases r)
  with Some have "launch_cycle (Arguments (replicate 4294967296 [])) empty_heap = Some (tr, h')"
    by simp
  from launch_shape [OF this] have "length (arguments (Arguments (replicate 4294967296 []))) < 2 ^ 32"
    by blast
  then show ?thesis by simp
qed

subsection \<open>Refused allocations\<close>

text \<open>
  A refused options structure is reported and ends the process; a refused argument
  array fails the assertion.
\<close>

lemma options_refused:
  "relay_ruby_run vCall (h\<lparr>grants := False # gs\<rparr>)
   = Exited ''error: unable to allocate memory for Ruby's command-line arguments.'' EXIT_FAILURE"
  by (simp add: relay_ruby_run_def alloc_def granted_def)

lemma array_refused:
  "relay_ruby_run (Arguments (x # xs)) (h\<lparr>grants := True # False # gs\<rparr>) = Aborted"
  by (simp add: relay_ruby_run_def alloc_def granted_def capture_arg_def Let_def)

text \<open>
  C4. A refused string copy is not noticed: with one argument \<^verbatim>\<open>a.rb\<close>, the structure
  and the array granted and the copy refused, \<^verbatim>\<open>relay_ruby_run\<close> stores \<^verbatim>\<open>NULL\<close> in
  the array and creates the script thread, which gives \<^verbatim>\<open>ruby_options\<close> one argument
  that is \<^verbatim>\<open>NULL\<close> and goes on to run the interpreter. Nothing is printed and the
  process does not end.
\<close>

theorem string_copy_failure_unreported:
  "map_option fst (launch_cycle (Arguments [''a.rb'']) (empty_heap\<lparr>grants := [True, True, False]\<rparr>))
   = Some [RubyInit, RubyInitLoadpath, SwigInit, RubyOptions 1 [None],
           Free None, Free (Some 1), Free (Some 0), RubyRun, RubyFinalize]"
  by (simp add: launch_cycle_def relay_ruby_run_def empty_heap_def alloc_def granted_def
        capture_arg_def realloc_def Let_def ruby_run_handshake_def argv_strings_def free_def
        free_args.simps)

subsection \<open>Release\<close>





section \<open>The order of the bootstraps\<close>

text \<open>
  C7. In every run of \<^verbatim>\<open>ruby_run_handshake\<close> that returns, \<^verbatim>\<open>swig_init\<close> is called,
  and no call that hands the interpreter something to load or run (\<^verbatim>\<open>ruby_options\<close>,
  \<^verbatim>\<open>ruby_run\<close>) comes before it. In \<^verbatim>\<open>main_init\<close>, for every environment, the two
  module functions \<^verbatim>\<open>relay_verilog\<close> and \<^verbatim>\<open>relay_ruby_reason\<close> are defined, and no
  such call (\<^verbatim>\<open>rb_load_file\<close>, \<^verbatim>\<open>ruby_run\<close>) comes before either definition.
\<close>

theorem entry_points_installed_first:
  assumes "ruby_run_handshake p h = Some (tr, h')"
  shows "SwigInit \<in> set tr \<and> RubyRun \<in> set tr
       \<and> preceded_by (\<lambda>a. a = SwigInit) enters_script tr
       \<and> DefineModuleFunction ''relay_verilog'' Main_relay_verilog 0 \<in> set (main_init getenv)
       \<and> DefineModuleFunction ''relay_ruby_reason'' Main_relay_ruby_reason 0 \<in> set (main_init getenv)
       \<and> preceded_by (\<lambda>a. a = DefineModuleFunction ''relay_verilog'' Main_relay_verilog 0)
            enters_script (main_init getenv)
       \<and> preceded_by (\<lambda>a. a = DefineModuleFunction ''relay_ruby_reason'' Main_relay_ruby_reason 0)
            enters_script (main_init getenv)"
proof -
  from assms obtain argc strs rest
    where "tr = [RubyInit, RubyInitLoadpath, SwigInit, RubyOptions argc strs] @ rest @ [RubyRun, RubyFinalize]"
    by (auto simp: ruby_run_handshake_def split: option.splits block.splits prod.splits)
  then have "SwigInit \<in> set tr \<and> RubyRun \<in> set tr \<and> preceded_by (\<lambda>a. a = SwigInit) enters_script tr"
    by simp
  then show ?thesis by (simp add: main_init_def)
qed

theorem entry_points_installed_first_witness:
  "\<exists>p h tr h'.
     relay_ruby_run (Arguments [''a.rb'']) empty_heap = Spawned p h
   \<and> ruby_run_handshake p h = Some (tr, h')
   \<and> tr = [RubyInit, RubyInitLoadpath, SwigInit, RubyOptions 1 [Some ''a.rb''],
           Free (Some 2), Free (Some 1), Free (Some 0), RubyRun, RubyFinalize]
   \<and> preceded_by (\<lambda>a. a = SwigInit) enters_script tr
   \<and> preceded_by (\<lambda>a. a = DefineModuleFunction ''relay_verilog'' Main_relay_verilog 0)
        enters_script (main_init bootstrap_set)
   \<and> preceded_by (\<lambda>a. a = DefineModuleFunction ''relay_ruby_reason'' Main_relay_ruby_reason 0)
        enters_script (main_init bootstrap_set)"
proof -
  have "map_option fst (launch_cycle (Arguments [''a.rb'']) empty_heap)
        = Some [RubyInit, RubyInitLoadpath, SwigInit, RubyOptions 1 [Some ''a.rb''],
           Free (Some 2), Free (Some 1), Free (Some 0), RubyRun, RubyFinalize]"
    by (simp add: launch_cycle_def relay_ruby_run_def empty_heap_def alloc_def granted_def
        capture_arg_def realloc_def Let_def ruby_run_handshake_def argv_strings_def free_def
        free_args.simps)
  then obtain p h tr h' where s: "relay_ruby_run (Arguments [''a.rb'']) empty_heap = Spawned p h"
    and r: "ruby_run_handshake p h = Some (tr, h')"
    and tr: "tr = [RubyInit, RubyInitLoadpath, SwigInit, RubyOptions 1 [Some ''a.rb''],
           Free (Some 2), Free (Some 1), Free (Some 0), RubyRun, RubyFinalize]"
    by (auto simp: launch_cycle_def split: launch.splits)
  note e = entry_points_installed_first [OF r, of bootstrap_set]
  show ?thesis
    by (rule exI [of _ p], rule exI [of _ h], rule exI [of _ tr], rule exI [of _ h'])
       (intro conjI s r tr e [THEN conjunct2, THEN conjunct2, THEN conjunct1]
          e [THEN conjunct2, THEN conjunct2, THEN conjunct2, THEN conjunct2, THEN conjunct2, THEN conjunct1]
          e [THEN conjunct2, THEN conjunct2, THEN conjunct2, THEN conjunct2, THEN conjunct2, THEN conjunct2])
qed

subsection \<open>The environment\<close>

lemma getenv_names_append: "getenv_names (xs @ ys) = getenv_names xs @ getenv_names ys"
  by (induction xs rule: getenv_names.induct) auto

lemma getenv_names_frees: "getenv_names (map Free cs) = []"
  by (induction cs) auto

text \<open>
  C8. When \<^verbatim>\<open>RUBYVPI_BOOTSTRAP\<close> is not set, \<^verbatim>\<open>main_init\<close> prints a diagnostic and
  exits with \<^verbatim>\<open>EXIT_FAILURE\<close>, having loaded and run nothing. When it is set, the file
  it names is loaded and the interpreter is run and finalised. \<^verbatim>\<open>main_init\<close> reads
  this variable and no other: its calls are the same in any two environments that
  agree on it. A launch cycle of \<^verbatim>\<open>relay.c\<close> reads no variable at all.
\<close>

theorem startup_environment:
  "(getenv ''RUBYVPI_BOOTSTRAP'' = None \<longrightarrow>
      (\<exists>d. main_init getenv
            = [RubyInit, RubyInitLoadpath, InitVpi,
               DefineModuleFunction ''relay_verilog'' Main_relay_verilog 0,
               DefineModuleFunction ''relay_ruby_reason'' Main_relay_ruby_reason 0,
               Getenv ''RUBYVPI_BOOTSTRAP'', CommonPrintf d, Exit EXIT_FAILURE]))
   \<and> (\<forall>f. getenv ''RUBYVPI_BOOTSTRAP'' = Some f \<longrightarrow>
          main_init getenv
          = [RubyInit, RubyInitLoadpath, InitVpi,
             DefineModuleFunction ''relay_verilog'' Main_relay_verilog 0,
             DefineModuleFunction ''relay_ruby_reason'' Main_relay_ruby_reason 0,
             Getenv ''RUBYVPI_BOOTSTRAP'', RubyScript f, RbLoadFile f, RubyRun, RubyFinalize])
   \<and> getenv_names (main_init getenv) = [''RUBYVPI_BOOTSTRAP'']
   \<and> (\<forall>getenv'. getenv ''RUBYVPI_BOOTSTRAP'' = getenv' ''RUBYVPI_BOOTSTRAP'' \<longrightarrow>
          main_init getenv = main_init getenv')
   \<and> (\<forall>vCall h0 tr h'. launch_cycle vCall h0 = Some (tr, h') \<longrightarrow> getenv_names tr = [])"
proof -
  have relay: "getenv_names tr = []" if "launch_cycle vCall h0 = Some (tr, h')"
    for vCall h0 tr h'
  proof -
    from launch_shape [OF that] obtain argc strs cs argv p
      where "tr = [RubyInit, RubyInitLoadpath, SwigInit, RubyOptions argc strs]
                @ map Free cs @ [Free argv, Free (Some p), RubyRun, RubyFinalize]"
      by blast
    then show ?thesis by (simp add: getenv_names_append getenv_names_frees)
  qed
  have absent: "getenv ''RUBYVPI_BOOTSTRAP'' = None \<longrightarrow>
      (\<exists>d. main_init getenv
            = [RubyInit, RubyInitLoadpath, InitVpi,
               DefineModuleFunction ''relay_verilog'' Main_relay_verilog 0,
               DefineModuleFunction ''relay_ruby_reason'' Main_relay_ruby_reason 0,
               Getenv ''RUBYVPI_BOOTSTRAP'', CommonPrintf d, Exit EXIT_FAILURE])"
    by (simp add: main_init_def)
  have present: "\<forall>f. getenv ''RUBYVPI_BOOTSTRAP'' = Some f \<longrightarrow>
          main_init getenv
          = [RubyInit, RubyInitLoadpath, InitVpi,
             DefineModuleFunction ''relay_verilog'' Main_relay_verilog 0,
             DefineModuleFunction ''relay_ruby_reason'' Main_relay_ruby_reason 0,
             Getenv ''RUBYVPI_BOOTSTRAP'', RubyScript f, RbLoadFile f, RubyRun, RubyFinalize]"
    by (simp add: main_init_def)
  have names: "getenv_names (main_init getenv) = [''RUBYVPI_BOOTSTRAP'']"
    by (simp add: main_init_def split: option.splits)
  have only: "\<forall>getenv'. getenv ''RUBYVPI_BOOTSTRAP'' = getenv' ''RUBYVPI_BOOTSTRAP'' \<longrightarrow>
          main_init getenv = main_init getenv'"
    by (simp add: main_init_def)
  from absent present names only relay show ?thesis by blast
qed

theorem startup_environment_witness:
  "only_named ''RUBYVPI_BOOTSTRAP'' = None
   \<and> (\<exists>d. main_init only_named
          = [RubyInit, RubyInitLoadpath, InitVpi,
             DefineModuleFunction ''relay_verilog'' Main_relay_verilog 0,
             DefineModuleFunction ''relay_ruby_reason'' Main_relay_ruby_reason 0,
             Getenv ''RUBYVPI_BOOTSTRAP'', CommonPrintf d, Exit EXIT_FAILURE])
   \<and> bootstrap_set ''RUBYVPI_BOOTSTRAP'' = Some ''bench.rb''
   \<and> main_init bootstrap_set
       = [RubyInit, RubyInitLoadpath, InitVpi,
          DefineModuleFunction ''relay_verilog'' Main_relay_verilog 0,
          DefineModuleFunction ''relay_ruby_reason'' Main_relay_ruby_reason 0,
          Getenv ''RUBYVPI_BOOTSTRAP'', RubyScript ''bench.rb'', RbLoadFile ''bench.rb'',
          RubyRun, RubyFinalize]
   \<and> getenv_names (main_init only_named) = [''RUBYVPI_BOOTSTRAP'']
   \<and> main_init only_named = main_init (\<lambda>v. None)
   \<and> (\<exists>tr h'. launch_cycle (Arguments [''a.rb'']) empty_heap = Some (tr, h')
         \<and> getenv_names tr = [])"
proof -
  note t1 = startup_environment [of only_named]
  note t2 = startup_environment [of bootstrap_set]
  have a: "only_named ''RUBYVPI_BOOTSTRAP'' = None" by (simp add: only_named_def)
  have b: "bootstrap_set ''RUBYVPI_BOOTSTRAP'' = Some ''bench.rb''" by (simp add: bootstrap_set_def)
  from launch_completes [of empty_heap "Arguments [''a.rb'']"]
  obtain tr h' where l: "launch_cycle (Arguments [''a.rb'']) empty_heap = Some (tr, h')"
    by (auto simp: empty_heap_def)
  from t1 l have "getenv_names tr = []" by blast
  with l have d: "\<exists>tr h'. launch_cycle (Arguments [''a.rb'']) empty_heap = Some (tr, h')
         \<and> getenv_names tr = []"
    by blast
  from t1 a have m1: "\<exists>d. main_init only_named
          = [RubyInit, RubyInitLoadpath, InitVpi,
             DefineModuleFunction ''relay_verilog'' Main_relay_verilog 0,
             DefineModuleFunction ''relay_ruby_reason'' Main_relay_ruby_reason 0,
             Getenv ''RUBYVPI_BOOTSTRAP'', CommonPrintf d, Exit EXIT_FAILURE]"
    by blast
  from t2 b have m2: "main_init bootstrap_set
       = [RubyInit, RubyInitLoadpath, InitVpi,
          DefineModuleFunction ''relay_verilog'' Main_relay_verilog 0,
          DefineModuleFunction ''relay_ruby_reason'' Main_relay_ruby_reason 0,
          Getenv ''RUBYVPI_BOOTSTRAP'', RubyScript ''bench.rb'', RbLoadFile ''bench.rb'',
          RubyRun, RubyFinalize]"
    by blast
  from t1 have n: "getenv_names (main_init only_named) = [''RUBYVPI_BOOTSTRAP'']" by blast
  from t1 have "\<forall>getenv'. only_named ''RUBYVPI_BOOTSTRAP'' = getenv' ''RUBYVPI_BOOTSTRAP'' \<longrightarrow>
          main_init only_named = main_init getenv'"
    by blast
  from this [THEN spec, of "\<lambda>v. None"] a
  have o: "main_init only_named = main_init (\<lambda>v. None)" by simp
  show ?thesis by (intro conjI a m1 b m2 n o d)
qed

text \<open>
  C10. Whenever \<^verbatim>\<open>RUBYVPI_BOOTSTRAP\<close>, the variable \<^verbatim>\<open>main_init\<close> reads, is not
  set, the last two calls of \<^verbatim>\<open>main_init\<close> print a message that names the variable
  \<^verbatim>\<open>RUBY_VPI__RUBY_BENCH_FILE\<close>, a different name, and exit with \<^verbatim>\<open>EXIT_FAILURE\<close>.
\<close>

theorem diagnostic_names_another_variable:
  assumes "getenv ''RUBYVPI_BOOTSTRAP'' = None"
  shows "main_init getenv
         = [RubyInit, RubyInitLoadpath, InitVpi,
            DefineModuleFunction ''relay_verilog'' Main_relay_verilog 0,
            DefineModuleFunction ''relay_ruby_reason'' Main_relay_ruby_reason 0,
            Getenv ''RUBYVPI_BOOTSTRAP'',
            CommonPrintf (''error: environment variable '' @ ''RUBY_VPI__RUBY_BENCH_FILE''
                          @ '' is uninitialized.''),
            Exit EXIT_FAILURE]
       \<and> ''RUBY_VPI__RUBY_BENCH_FILE'' \<noteq> ''RUBYVPI_BOOTSTRAP''"
  using assms by (simp add: main_init_def)

theorem diagnostic_names_another_variable_witness:
  "only_named ''RUBYVPI_BOOTSTRAP'' = None
   \<and> only_named ''RUBY_VPI__RUBY_BENCH_FILE'' = Some ''bench.rb''
   \<and> main_init only_named
       = [RubyInit, RubyInitLoadpath, InitVpi,
          DefineModuleFunction ''relay_verilog'' Main_relay_verilog 0,
          DefineModuleFunction ''relay_ruby_reason'' Main_relay_ruby_reason 0,
          Getenv ''RUBYVPI_BOOTSTRAP'',
          CommonPrintf ''error: environment variable RUBY_VPI__RUBY_BENCH_FILE is uninitialized.'',
          Exit EXIT_FAILURE]"
proof -
  have a: "only_named ''RUBYVPI_BOOTSTRAP'' = None" by (simp add: only_named_def)
  have b: "only_named ''RUBY_VPI__RUBY_BENCH_FILE'' = Some ''bench.rb''"
    by (simp add: only_named_def)
  from diagnostic_names_another_variable [of only_named, OF a] a b show ?thesis by simp
qed

end
